theory Spec2Isabelle
  imports Main "HOL-Library.Word"
begin

section \<open>The connection pool of bunnyhop\<close>

text \<open>
  The pool is embedded as explicit state passing over records that mirror the Go structs.
  A pointer to a \<open>NodeConnection\<close> is the index of the node in \<open>p.nodes\<close>; the list is
  built once by \<open>NewPool\<close> and never resized. Go's \<open>int\<close> and \<open>int64\<close> are 64-bit words,
  read as two's complement with \<open>sint\<close>. Mutexes are left out: every function below is
  one critical section of the source, run without interleaving. Log output is left out.
  What the world answers (the broker on a dial, the random generator, the clock) is an
  argument of the function that asks for it.
\<close>

subsection \<open>Data model\<close>

type_synonym int64 = "64 word"
type_synonym go_int = "64 word"
type_synonym Duration = "64 word"
type_synonym Time = nat \<comment> \<open>a clock reading, in nanoseconds\<close>

definition Second :: Duration where
  "Second = 1000000000"

text \<open>\<open>type LoadBalanceStrategy int\<close> with the constants numbered by \<open>iota\<close>.\<close>

type_synonym LoadBalanceStrategy = go_int

definition RoundRobin :: LoadBalanceStrategy where "RoundRobin = 0"
definition Random :: LoadBalanceStrategy where "Random = 1"
definition LeastUsed :: LoadBalanceStrategy where "LeastUsed = 2"
definition WeightedRoundRobin :: LoadBalanceStrategy where "WeightedRoundRobin = 3"

text \<open>The \<open>Logger\<close> interface: the library's own logger or one supplied by the caller.\<close>

datatype Logger = DefaultLogger bool | CustomLogger nat

definition NewDefaultLogger :: "bool \<Rightarrow> Logger" where
  "NewDefaultLogger debugEnabled = DefaultLogger debugEnabled"

record PoolConfig =
  URLs :: "string list"
  ReconnectInterval :: Duration
  MaxReconnectAttempt :: go_int
  HealthCheckInterval :: Duration
  LoadBalanceStrategy :: LoadBalanceStrategy
  DebugLog :: bool
  Logger :: "Logger option"

text \<open>Errors are the \<open>fmt.Errorf\<close> values of the source, one constructor per message.\<close>

datatype error =
    ErrPoolClosed
  | ErrNoHealthyNodes
  | ErrNodeNotFound string
  | ErrCloseChannel string
  | ErrCloseConnection string
  | ErrClientClose "error list"
  | ErrCloseNode string error
  | ErrPoolClose "error list"

datatype panic = IntnInvalidArgument | IndexOutOfRange | NilDereference | NonPositiveTickerInterval

datatype 'a outcome = Ok 'a | Err error | Panic panic

text \<open>
  An \<open>amqp.Connection\<close> or \<open>amqp.Channel\<close> of the broker library, as far as the client
  looks at it: what \<open>IsClosed()\<close> answers and what \<open>Close()\<close> will return.
\<close>

record AmqpHandle =
  is_closed :: bool
  close_error :: "string option"

record Client =
  connection :: "AmqpHandle option"
  channel :: "AmqpHandle option"
  connected :: bool
  cancelled :: bool

record NodeConnection =
  URL :: string
  Client :: "Client option"
  healthy :: bool
  weight :: go_int
  lastUsed :: Time
  totalUsed :: int64
  failures :: int64
  connecting :: bool

record Ticker =
  period :: Duration
  stopped :: bool

record Pool =
  config :: PoolConfig
  nodes :: "NodeConnection list"
  closed :: bool
  roundRobin :: int64
  logger :: "Logger option"
  ctx_cancelled :: bool
  healthTicker :: "Ticker option"
  totalRequests :: int64
  totalFailures :: int64

record NodeStats =
  StatURL :: string
  Healthy :: bool
  Connected :: bool
  TotalUsed :: int64
  Failures :: int64
  Weight :: go_int
  LastUsed :: Time

record PoolStats =
  TotalNodes :: nat
  HealthyNodes :: nat
  TotalRequests :: int64
  TotalFailures :: int64
  NodesStats :: "NodeStats list"

text \<open>Work handed to the runtime: goroutines started with \<open>go\<close>, timers, network I/O.\<close>

datatype task = ConnectToNode nat | WatchNodeConnection nat | CheckNodeHealth nat | HealthCheckWorker

datatype effect = Dial string | CloseClient Client | Go task | AfterFunc Duration task

subsection \<open>The single-connection client (client.go)\<close>

definition IsConnected :: "Client \<Rightarrow> bool" where
  "IsConnected c =
     (connected c \<and> (case connection c of None \<Rightarrow> False | Some h \<Rightarrow> \<not> is_closed h))"

definition close_handle :: "(string \<Rightarrow> error) \<Rightarrow> AmqpHandle option \<Rightarrow> error list" where
  "close_handle wrap h =
     (case h of None \<Rightarrow> []
      | Some a \<Rightarrow> (case close_error a of None \<Rightarrow> [] | Some e \<Rightarrow> [wrap e]))"

definition Client_Close :: "Client \<Rightarrow> error option \<times> Client" where
  "Client_Close c =
     (let errs = close_handle ErrCloseChannel (channel c)
               @ close_handle ErrCloseConnection (connection c);
          c' = c\<lparr>cancelled := True, channel := None, connection := None, connected := False\<rparr>
      in (if length errs > 0 then Some (ErrClientClose errs) else None, c'))"

text \<open>
  What \<open>client.Connect\<close> came back with: the broker accepted the dial and opened a
  channel, or the attempt failed.
\<close>

datatype ConnectOutcome = ConnectOK AmqpHandle AmqpHandle | ConnectFailed string

subsection \<open>Defaults and construction\<close>

definition zero_PoolConfig :: PoolConfig where
  "zero_PoolConfig =
     \<lparr>URLs = [], ReconnectInterval = 0, MaxReconnectAttempt = 0, HealthCheckInterval = 0,
      LoadBalanceStrategy = 0, DebugLog = False, Logger = None\<rparr>"

definition getDefaultConfig :: "PoolConfig option \<Rightarrow> PoolConfig" where
  "getDefaultConfig cfg =
     (let c0 = (case cfg of None \<Rightarrow> zero_PoolConfig | Some c \<Rightarrow> c);
          c1 = (if ReconnectInterval c0 = 0 then c0\<lparr>ReconnectInterval := 5 * Second\<rparr> else c0);
          c2 = (if MaxReconnectAttempt c1 = 0 then c1\<lparr>MaxReconnectAttempt := 10\<rparr> else c1);
          c3 = (if HealthCheckInterval c2 = 0 then c2\<lparr>HealthCheckInterval := 30 * Second\<rparr> else c2);
          c4 = (if length (URLs c3) = 0 then c3\<lparr>URLs := [''amqp://localhost:5672'']\<rparr> else c3);
          c5 = (if Logger c4 = None then c4\<lparr>Logger := Some (NewDefaultLogger (DebugLog c4))\<rparr> else c4)
      in c5)"

definition new_node :: "Time \<Rightarrow> string \<Rightarrow> NodeConnection" where
  "new_node now url =
     \<lparr>URL = url, Client = None, healthy = False, weight = 1, lastUsed = now,
      totalUsed = 0, failures = 0, connecting = False\<rparr>"


text \<open>
  \<open>NewPool\<close> calls \<open>getDefaultConfig(&config)\<close>; the declaration that call is linked to
  is its first argument here.
\<close>

definition NewPool :: "(PoolConfig option \<Rightarrow> PoolConfig) \<Rightarrow> Time \<Rightarrow> PoolConfig \<Rightarrow> Pool" where
  "NewPool linked now cfg =
     (let c = linked (Some cfg)
      in \<lparr>config = c, nodes = map (new_node now) (URLs c), closed = False, roundRobin = 0,
          logger = Logger c, ctx_cancelled = False, healthTicker = None,
          totalRequests = 0, totalFailures = 0\<rparr>)"

subsection \<open>Selection (pool.go)\<close>

definition node_usable :: "NodeConnection \<Rightarrow> bool" where
  "node_usable n =
     (healthy n \<and> (case Client n of None \<Rightarrow> False | Some c \<Rightarrow> IsConnected c))"

definition getHealthyNodes :: "Pool \<Rightarrow> nat list" where
  "getHealthyNodes p = filter (\<lambda>i. node_usable (nodes p ! i)) [0..<length (nodes p)]"

text \<open>Go's \<open>%\<close> truncates towards zero: the remainder has the sign of the dividend.\<close>

definition go_rem :: "int \<Rightarrow> int \<Rightarrow> int" where
  "go_rem a b = sgn a * (\<bar>a\<bar> mod \<bar>b\<bar>)"

text \<open>
  \<open>rand.Intn(n)\<close> panics for \<open>n \<le> 0\<close> and otherwise answers a number in \<open>[0, n)\<close>; the
  argument \<open>raw\<close> is the generator's output, reduced into that range.
\<close>

definition rand_Intn :: "int \<Rightarrow> nat \<Rightarrow> int outcome" where
  "rand_Intn n raw = (if n \<le> 0 then Panic IntnInvalidArgument else Ok (int raw mod n))"

definition getClientRoundRobin :: "Pool \<Rightarrow> nat option outcome \<times> Pool" where
  "getClientRoundRobin p =
     (let healthyNodes = getHealthyNodes p
      in if length healthyNodes = 0 then (Err ErrNoHealthyNodes, p)
         else let p' = p\<lparr>roundRobin := roundRobin p + 1\<rparr>;
                  index = go_rem (sint (roundRobin p')) (int (length healthyNodes))
              in if index < 0 then (Panic IndexOutOfRange, p')
                 else (Ok (Some (healthyNodes ! nat index)), p'))"

definition getClientRandom :: "nat \<Rightarrow> Pool \<Rightarrow> nat option outcome \<times> Pool" where
  "getClientRandom raw p =
     (let healthyNodes = getHealthyNodes p
      in if length healthyNodes = 0 then (Err ErrNoHealthyNodes, p)
         else case rand_Intn (int (length healthyNodes)) raw of
                Ok index \<Rightarrow> (Ok (Some (healthyNodes ! nat index)), p)
              | Err e \<Rightarrow> (Err e, p)
              | Panic k \<Rightarrow> (Panic k, p))"

definition MaxInt64 :: int64 where
  "MaxInt64 = 0x7FFFFFFFFFFFFFFF"

fun least_used_loop :: "NodeConnection list \<Rightarrow> nat list \<Rightarrow> nat option \<Rightarrow> int64 \<Rightarrow> nat option" where
  "least_used_loop ns [] selectedNode minUsed = selectedNode"
| "least_used_loop ns (i # is) selectedNode minUsed =
     (let used = totalUsed (ns ! i)
      in if sint used < sint minUsed then least_used_loop ns is (Some i) used
         else least_used_loop ns is selectedNode minUsed)"

definition getClientLeastUsed :: "Pool \<Rightarrow> nat option outcome \<times> Pool" where
  "getClientLeastUsed p =
     (let healthyNodes = getHealthyNodes p
      in if length healthyNodes = 0 then (Err ErrNoHealthyNodes, p)
         else (Ok (least_used_loop (nodes p) healthyNodes None MaxInt64), p))"

fun total_weight_loop :: "NodeConnection list \<Rightarrow> nat list \<Rightarrow> go_int \<Rightarrow> go_int" where
  "total_weight_loop ns [] totalWeight = totalWeight"
| "total_weight_loop ns (i # is) totalWeight = total_weight_loop ns is (totalWeight + weight (ns ! i))"

fun weighted_walk :: "NodeConnection list \<Rightarrow> nat list \<Rightarrow> int \<Rightarrow> go_int \<Rightarrow> nat option" where
  "weighted_walk ns [] randWeight currentWeight = None"
| "weighted_walk ns (i # is) randWeight currentWeight =
     (let currentWeight' = currentWeight + weight (ns ! i)
      in if randWeight < sint currentWeight' then Some i
         else weighted_walk ns is randWeight currentWeight')"

definition getClientWeightedRoundRobin :: "nat \<Rightarrow> Pool \<Rightarrow> nat option outcome \<times> Pool" where
  "getClientWeightedRoundRobin raw p =
     (let healthyNodes = getHealthyNodes p
      in if length healthyNodes = 0 then (Err ErrNoHealthyNodes, p)
         else let totalWeight = total_weight_loop (nodes p) healthyNodes 0
              in if totalWeight = 0 then getClientRoundRobin p
                 else case rand_Intn (sint totalWeight) raw of
                        Panic k \<Rightarrow> (Panic k, p)
                      | Err e \<Rightarrow> (Err e, p)
                      | Ok randWeight \<Rightarrow>
                          (case weighted_walk (nodes p) healthyNodes randWeight 0 of
                             Some i \<Rightarrow> (Ok (Some i), p)
                           | None \<Rightarrow> (Ok (Some (healthyNodes ! 0)), p)))"

definition select_node :: "nat \<Rightarrow> Pool \<Rightarrow> nat option outcome \<times> Pool" where
  "select_node raw p =
     (let s = LoadBalanceStrategy (config p)
      in if s = RoundRobin then getClientRoundRobin p
         else if s = Random then getClientRandom raw p
         else if s = LeastUsed then getClientLeastUsed p
         else if s = WeightedRoundRobin then getClientWeightedRoundRobin raw p
         else getClientRoundRobin p)"

text \<open>
  \<open>GetClient\<close> answers \<open>Ok (i, c)\<close>: \<open>c\<close> is the returned \<open>*Client\<close> and \<open>i\<close> the index
  in \<open>p.nodes\<close> of the source's \<open>selectedNode\<close>. A panic unwinds past the accounting of
  failures. \<open>now\<close> is the reading of \<open>time.Now()\<close>.
\<close>

definition use_node :: "Time \<Rightarrow> NodeConnection \<Rightarrow> NodeConnection" where
  "use_node now n = n\<lparr>totalUsed := totalUsed n + 1, lastUsed := now\<rparr>"

definition GetClient :: "Time \<Rightarrow> nat \<Rightarrow> Pool \<Rightarrow> (nat \<times> Client option) outcome \<times> Pool" where
  "GetClient now raw p =
     (let p1 = p\<lparr>totalRequests := totalRequests p + 1\<rparr>
      in if closed p1 then (Err ErrPoolClosed, p1)
         else case select_node raw p1 of
                (Panic k, p2) \<Rightarrow> (Panic k, p2)
              | (Err e, p2) \<Rightarrow> (Err e, p2\<lparr>totalFailures := totalFailures p2 + 1\<rparr>)
              | (Ok None, p2) \<Rightarrow> (Panic NilDereference, p2)
              | (Ok (Some i), p2) \<Rightarrow>
                  (let p3 = p2\<lparr>nodes := (nodes p2)[i := use_node now (nodes p2 ! i)]\<rparr>
                   in (Ok (i, Client (nodes p3 ! i)), p3)))"

text \<open>Calls made one after the other by a single caller, each on the state the last one left.\<close>

fun GetClient_serial :: "(Time \<times> nat) list \<Rightarrow> Pool \<Rightarrow> (nat \<times> Client option) outcome list \<times> Pool" where
  "GetClient_serial [] p = ([], p)"
| "GetClient_serial ((now, raw) # rest) p =
     (let (r, p') = GetClient now raw p;
          (rs, p'') = GetClient_serial rest p'
      in (r # rs, p''))"

fun returned_node :: "(nat \<times> Client option) outcome \<Rightarrow> nat option" where
  "returned_node (Ok (i, c)) = Some i"
| "returned_node (Err e) = None"
| "returned_node (Panic k) = None"

subsection \<open>Supervision: Connector, Liveness Watcher, Health Prober (pool.go)\<close>

text \<open>
  \<open>connectToNode\<close> runs under the node's lock from entry to return, so the
  \<open>connecting\<close> flag it raises is lowered again by the deferred reset before anyone
  else can read it. \<open>answer\<close> is what \<open>client.Connect(p.ctx)\<close> returned; \<open>Connect\<close>
  dials without looking at the context it is given. On success the client the node held
  before, if any, is asked to close and is dropped. The effects are listed in the order
  they happen.
\<close>

definition connected_client :: "AmqpHandle \<Rightarrow> AmqpHandle \<Rightarrow> Client" where
  "connected_client conn ch =
     \<lparr>connection = Some conn, channel = Some ch, connected = True, cancelled = False\<rparr>"

definition connectToNode :: "nat \<Rightarrow> ConnectOutcome \<Rightarrow> Pool \<Rightarrow> Pool \<times> effect list" where
  "connectToNode i answer p =
     (let node = nodes p ! i
      in if connecting node then (p, [])
         else case answer of
                ConnectFailed e \<Rightarrow>
                  (p\<lparr>nodes := (nodes p)[i := node\<lparr>failures := failures node + 1,
                                                  healthy := False, connecting := False\<rparr>]\<rparr>,
                   [Dial (URL node), AfterFunc (ReconnectInterval (config p)) (ConnectToNode i)])
              | ConnectOK conn ch \<Rightarrow>
                  (p\<lparr>nodes := (nodes p)[i := node\<lparr>Client := Some (connected_client conn ch),
                                                  healthy := True, connecting := False\<rparr>]\<rparr>,
                   [Dial (URL node)]
                   @ (case Client node of None \<Rightarrow> [] | Some old \<Rightarrow> [CloseClient old])
                   @ [Go (WatchNodeConnection i)]))"

text \<open>
  The watcher of a node. On entry it creates a ticker of 10 seconds, whatever the
  configuration says, and stops it when it returns. \<open>due\<close> is the time of the ticker's
  next tick. One pass of the \<open>select\<close> is woken by the context being done or by that
  tick.
\<close>

record Watcher =
  watched :: nat
  ticker :: Ticker
  due :: Time

datatype wake = CtxDone | Tick

datatype watcher = Polling | Exited


definition ticker_Stop :: "Watcher \<Rightarrow> Watcher" where
  "ticker_Stop w = w\<lparr>ticker := (ticker w)\<lparr>stopped := True\<rparr>\<rparr>"

definition next_tick :: "Watcher \<Rightarrow> Watcher" where
  "next_tick w = w\<lparr>due := due w + unat (period (ticker w))\<rparr>"

definition watchNodeConnection ::
  "wake \<Rightarrow> Watcher \<Rightarrow> Pool \<Rightarrow> watcher \<times> Watcher \<times> Pool \<times> effect list" where
  "watchNodeConnection wk w p =
     (case wk of
        CtxDone \<Rightarrow> (Exited, ticker_Stop w, p, [])
      | Tick \<Rightarrow>
          (let i = watched w; node = nodes p ! i
           in case Client node of
                None \<Rightarrow> (Polling, next_tick w, p, [])
              | Some c \<Rightarrow>
                  if \<not> IsConnected c
                  then (Exited, ticker_Stop w,
                        p\<lparr>nodes := (nodes p)[i := node\<lparr>healthy := False\<rparr>]\<rparr>,
                        [Go (ConnectToNode i)])
                  else (Polling, next_tick w, p, [])))"

definition checkNodeHealth :: "nat \<Rightarrow> Pool \<Rightarrow> Pool \<times> effect list" where
  "checkNodeHealth i p =
     (let node = nodes p ! i
      in case Client node of
           None \<Rightarrow> (p\<lparr>nodes := (nodes p)[i := node\<lparr>healthy := False\<rparr>]\<rparr>, [Go (ConnectToNode i)])
         | Some c \<Rightarrow>
             if \<not> IsConnected c
             then (p\<lparr>nodes := (nodes p)[i := node\<lparr>healthy := False\<rparr>]\<rparr>, [Go (ConnectToNode i)])
             else if \<not> healthy node
             then (p\<lparr>nodes := (nodes p)[i := node\<lparr>healthy := True\<rparr>]\<rparr>, [])
             else (p, []))"

definition performHealthCheck :: "Pool \<Rightarrow> effect list" where
  "performHealthCheck p = map (\<lambda>i. Go (CheckNodeHealth i)) [0..<length (nodes p)]"

subsection \<open>Lifecycle (pool.go)\<close>

text \<open>
  \<open>time.NewTicker\<close> panics when its interval is not positive. The goroutines of the
  Connector have been started by then.
\<close>

definition Start :: "Pool \<Rightarrow> unit outcome \<times> Pool \<times> effect list" where
  "Start p =
     (if closed p then (Err ErrPoolClosed, p, [])
      else if sint (HealthCheckInterval (config p)) \<le> 0
      then (Panic NonPositiveTickerInterval, p,
            map (\<lambda>i. Go (ConnectToNode i)) [0..<length (nodes p)])
      else (Ok (),
            p\<lparr>healthTicker := Some \<lparr>period = HealthCheckInterval (config p), stopped = False\<rparr>\<rparr>,
            map (\<lambda>i. Go (ConnectToNode i)) [0..<length (nodes p)] @ [Go HealthCheckWorker]))"

fun close_nodes :: "NodeConnection list \<Rightarrow> error list \<Rightarrow> NodeConnection list \<times> error list" where
  "close_nodes [] errs = ([], errs)"
| "close_nodes (node # rest) errs =
     (case Client node of
        None \<Rightarrow> (let (ns, es) = close_nodes rest errs in (node # ns, es))
      | Some c \<Rightarrow>
          (let (err, c') = Client_Close c;
               errs' = (case err of None \<Rightarrow> errs | Some e \<Rightarrow> errs @ [ErrCloseNode (URL node) e]);
               (ns, es) = close_nodes rest errs'
           in (node\<lparr>Client := Some c'\<rparr> # ns, es)))"

text \<open>\<open>p.cancel\<close> is set by \<open>NewPool\<close> and never cleared, so the context is always cancelled.\<close>

definition Close :: "Pool \<Rightarrow> error option \<times> Pool" where
  "Close p =
     (if closed p then (None, p)
      else let p1 = p\<lparr>closed := True, ctx_cancelled := True\<rparr>;
               p2 = (case healthTicker p1 of
                       None \<Rightarrow> p1
                     | Some t \<Rightarrow> p1\<lparr>healthTicker := Some (t\<lparr>stopped := True\<rparr>)\<rparr>);
               (ns, errs) = close_nodes (nodes p2) []
           in (if length errs > 0 then Some (ErrPoolClose errs) else None, p2\<lparr>nodes := ns\<rparr>))"

subsection \<open>Weights and statistics (pool.go)\<close>

fun set_weight_loop :: "NodeConnection list \<Rightarrow> string \<Rightarrow> go_int \<Rightarrow> NodeConnection list option" where
  "set_weight_loop [] url w = None"
| "set_weight_loop (node # rest) url w =
     (if URL node = url then Some (node\<lparr>weight := w\<rparr> # rest)
      else map_option ((#) node) (set_weight_loop rest url w))"

definition SetNodeWeight :: "string \<Rightarrow> go_int \<Rightarrow> Pool \<Rightarrow> error option \<times> Pool" where
  "SetNodeWeight url w p =
     (case set_weight_loop (nodes p) url w of
        Some ns \<Rightarrow> (None, p\<lparr>nodes := ns\<rparr>)
      | None \<Rightarrow> (Some (ErrNodeNotFound url), p))"

definition node_stat :: "NodeConnection \<Rightarrow> NodeStats" where
  "node_stat node =
     \<lparr>StatURL = URL node, Healthy = healthy node,
      Connected = (case Client node of None \<Rightarrow> False | Some c \<Rightarrow> IsConnected c),
      TotalUsed = totalUsed node, Failures = failures node, Weight = weight node,
      LastUsed = lastUsed node\<rparr>"

fun stats_loop :: "NodeConnection list \<Rightarrow> PoolStats \<Rightarrow> PoolStats" where
  "stats_loop [] stats = stats"
| "stats_loop (node # rest) stats =
     (let nodeStat = node_stat node;
          stats1 = (if Healthy nodeStat then stats\<lparr>HealthyNodes := HealthyNodes stats + 1\<rparr> else stats)
      in stats_loop rest (stats1\<lparr>NodesStats := NodesStats stats1 @ [nodeStat]\<rparr>))"

definition GetStats :: "Pool \<Rightarrow> PoolStats" where
  "GetStats p =
     stats_loop (nodes p)
       \<lparr>TotalNodes = length (nodes p), HealthyNodes = 0, TotalRequests = totalRequests p,
        TotalFailures = totalFailures p, NodesStats = []\<rparr>"

fun healthy_count_loop :: "NodeConnection list \<Rightarrow> nat \<Rightarrow> nat" where
  "healthy_count_loop [] count = count"
| "healthy_count_loop (node # rest) count =
     healthy_count_loop rest (if node_usable node then count + 1 else count)"

definition GetHealthyNodeCount :: "Pool \<Rightarrow> nat" where
  "GetHealthyNodeCount p = healthy_count_loop (nodes p) 0"

subsection \<open>Notions used in the statements\<close>

text \<open>A node after its client, if it has one, was asked to close; and the error that gave.\<close>

definition close_node :: "NodeConnection \<Rightarrow> NodeConnection" where
  "close_node n =
     (case Client n of None \<Rightarrow> n | Some c \<Rightarrow> n\<lparr>Client := Some (snd (Client_Close c))\<rparr>)"

definition node_close_errors :: "NodeConnection \<Rightarrow> error list" where
  "node_close_errors n =
     (case Client n of None \<Rightarrow> []
      | Some c \<Rightarrow> (case fst (Client_Close c) of None \<Rightarrow> [] | Some e \<Rightarrow> [ErrCloseNode (URL n) e]))"


text \<open>The sum of the weights over the healthy set, in Go's wrapping \<open>int\<close> arithmetic.\<close>

definition healthy_weight :: "Pool \<Rightarrow> go_int" where
  "healthy_weight p = sum_list (map (\<lambda>i. weight (nodes p ! i)) (getHealthyNodes p))"

text \<open>The running weight sum after the first \<open>k\<close> healthy nodes, in index order.\<close>

definition running_weight :: "Pool \<Rightarrow> nat \<Rightarrow> go_int" where
  "running_weight p k = sum_list (map (\<lambda>i. weight (nodes p ! i)) (take k (getHealthyNodes p)))"

subsection \<open>Concrete pools\<close>

text \<open>All of them are built with the first declaration of \<open>getDefaultConfig\<close>.\<close>

definition dead_handle :: AmqpHandle where
  "dead_handle = \<lparr>is_closed = True, close_error = None\<rparr>"

definition stale_node :: NodeConnection where
  "stale_node =
     (new_node 0 ''amqp://a:5672'')\<lparr>Client := Some (connected_client dead_handle dead_handle),
                                     healthy := True\<rparr>"

definition stale_pool :: Pool where
  "stale_pool = (NewPool getDefaultConfig 0 zero_PoolConfig)\<lparr>nodes := [stale_node]\<rparr>"

definition live_handle :: AmqpHandle where
  "live_handle = \<lparr>is_closed = False, close_error = None\<rparr>"

definition failing_handle :: AmqpHandle where
  "failing_handle = \<lparr>is_closed = False, close_error = Some ''broken pipe''\<rparr>"

definition three_urls :: PoolConfig where
  "three_urls = zero_PoolConfig\<lparr>URLs := [''amqp://a:5672'', ''amqp://b:5672'', ''amqp://c:5672'']\<rparr>"

text \<open>
  A started pool of three nodes: the first connected, the second connected over a
  connection whose \<open>Close()\<close> will fail, the third not connected yet.
\<close>

definition running_pool :: "LoadBalanceStrategy \<Rightarrow> Pool" where
  "running_pool s =
     (let p0 = NewPool getDefaultConfig 0 (three_urls\<lparr>LoadBalanceStrategy := s\<rparr>);
          (e, p1, es) = Start p0;
          (p2, es2) = connectToNode 0 (ConnectOK live_handle live_handle) p1;
          (p3, es3) = connectToNode 1 (ConnectOK failing_handle live_handle) p2
      in p3)"

definition negative_pool :: Pool where
  "negative_pool = snd (SetNodeWeight ''amqp://a:5672'' (- 3) (running_pool WeightedRoundRobin))"

text \<open>
  A pool whose only broker is down: started, the first connection attempt failed, then
  the pool was closed.
\<close>

definition down_pool :: Pool where
  "down_pool =
     (let p0 = NewPool getDefaultConfig 0 (zero_PoolConfig\<lparr>URLs := [''amqp://down:5672'']\<rparr>);
          (e, p1, es) = Start p0;
          (p2, es2) = connectToNode 0 (ConnectFailed ''connection refused'') p1;
          (e3, p3) = Close p2
      in p3)"

definition weighted_pool :: Pool where
  "weighted_pool = snd (SetNodeWeight ''amqp://a:5672'' 0 (running_pool WeightedRoundRobin))"

definition used_pool :: Pool where
  "used_pool = snd (GetClient 3 0 (snd (GetClient 2 0 (running_pool LeastUsed))))"

text \<open>The running pool after its third node connected as well.\<close>

definition all_up_pool :: Pool where
  "all_up_pool = fst (connectToNode 2 (ConnectOK live_handle live_handle) (running_pool RoundRobin))"

section \<open>Properties\<close>

subsection \<open>Statistics\<close>

lemma healthy_count_loop_eq:
  "healthy_count_loop ns c = c + length (filter node_usable ns)"
  by (induction ns arbitrary: c) auto

lemma stats_loop_HealthyNodes:
  "HealthyNodes (stats_loop ns s) = HealthyNodes s + length (filter healthy ns)"
  by (induction ns arbitrary: s) (auto simp: node_stat_def Let_def)

lemma filter_usable_le: "length (filter node_usable ns) \<le> length (filter healthy ns)"
  by (induction ns) (auto simp: node_usable_def)

text \<open>
  C10. \<open>GetStats\<close> counts the nodes whose \<open>healthy\<close> flag is set; \<open>GetHealthyNodeCount\<close>
  counts the nodes that also hold a client whose \<open>IsConnected\<close> is true. So the count is
  never above the statistic, and in some pool state the two differ.
\<close>

theorem stats_vs_count:
  "HealthyNodes (GetStats p) = length (filter healthy (nodes p))
   \<and> GetHealthyNodeCount p
       = length (filter (\<lambda>n. healthy n \<and> (\<exists>c. Client n = Some c \<and> IsConnected c)) (nodes p))
   \<and> GetHealthyNodeCount p \<le> HealthyNodes (GetStats p)
   \<and> (\<exists>q. GetHealthyNodeCount q \<noteq> HealthyNodes (GetStats q))"
proof -
  have a: "HealthyNodes (GetStats p) = length (filter healthy (nodes p))" for p
    by (simp add: GetStats_def stats_loop_HealthyNodes)
  have b: "GetHealthyNodeCount p = length (filter node_usable (nodes p))" for p
    by (simp add: GetHealthyNodeCount_def healthy_count_loop_eq)
  have c: "node_usable = (\<lambda>n. healthy n \<and> (\<exists>c. Client n = Some c \<and> IsConnected c))"
    by (auto simp: node_usable_def fun_eq_iff split: option.splits)
  have d: "GetHealthyNodeCount stale_pool \<noteq> HealthyNodes (GetStats stale_pool)"
    by (simp add: a b stale_pool_def stale_node_def node_usable_def IsConnected_def
        connected_client_def dead_handle_def)
  show ?thesis using a b c d filter_usable_le by metis
qed

text \<open>The stale pool: one node flagged healthy whose connection has been closed.\<close>

theorem stats_vs_count_witness:
  "GetHealthyNodeCount stale_pool = 0 \<and> HealthyNodes (GetStats stale_pool) = 1"
  using stats_vs_count [of stale_pool]
  by (simp add: stale_pool_def stale_node_def IsConnected_def connected_client_def dead_handle_def)

subsection \<open>Close\<close>

lemma close_nodes_eq:
  "close_nodes ns errs = (map close_node ns, errs @ concat (map node_close_errors ns))"
  by (induction ns arbitrary: errs)
     (auto simp: close_node_def node_close_errors_def split: option.splits prod.splits)

text \<open>
  C7. \<open>Close\<close> is idempotent. The first call sets \<open>closed\<close>, cancels the context, stops
  the health ticker if there is one, asks the client of every node that has one to close,
  and returns the close errors of the nodes, in node order, wrapped into one error (or
  success when there is none). A call on a closed pool returns success and leaves the
  pool as it is; so does the second call, and every later one.
\<close>

theorem Close_idempotent:
  "(\<not> closed p \<longrightarrow>
      closed (snd (Close p)) \<and> ctx_cancelled (snd (Close p))
      \<and> healthTicker (snd (Close p)) = map_option (\<lambda>t. t\<lparr>stopped := True\<rparr>) (healthTicker p)
      \<and> nodes (snd (Close p)) = map close_node (nodes p)
      \<and> fst (Close p) = (if concat (map node_close_errors (nodes p)) = [] then None
                         else Some (ErrPoolClose (concat (map node_close_errors (nodes p))))))
   \<and> Close (snd (Close p)) = (None, snd (Close p))
   \<and> (closed p \<longrightarrow> Close p = (None, p))"
  by (auto simp: Close_def close_nodes_eq Let_def split: option.splits)

theorem Close_idempotent_witness:
  "\<not> closed (running_pool RoundRobin)
   \<and> fst (Close (running_pool RoundRobin))
       = Some (ErrPoolClose [ErrCloseNode ''amqp://b:5672''
                              (ErrClientClose [ErrCloseConnection ''broken pipe''])])
   \<and> closed (snd (Close (running_pool RoundRobin)))
   \<and> Close (snd (Close (running_pool RoundRobin))) = (None, snd (Close (running_pool RoundRobin)))"
  using Close_idempotent [of "running_pool RoundRobin"]
  by (simp add: running_pool_def NewPool_def getDefaultConfig_def three_urls_def zero_PoolConfig_def
      Start_def Second_def connectToNode_def new_node_def node_close_errors_def Client_Close_def close_handle_def
      connected_client_def live_handle_def failing_handle_def Let_def)

subsection \<open>Liveness Watcher\<close>



text \<open>
  The guard of the source also covers a node without a client, which no watcher meets:
  there the tick changes nothing and the watcher keeps polling.
\<close>

lemma watchNodeConnection_no_client:
  "Client (nodes p ! watched w) = None \<Longrightarrow> watchNodeConnection Tick w p = (Polling, next_tick w, p, [])"
  by (simp add: watchNodeConnection_def Let_def)

lemmas example_defs = running_pool_def NewPool_def getDefaultConfig_def three_urls_def
  zero_PoolConfig_def Start_def connectToNode_def new_node_def connected_client_def
  live_handle_def failing_handle_def Second_def

subsection \<open>Defaults\<close>




subsection \<open>Connector\<close>

text \<open>
  C4. What \<open>connectToNode\<close> does when the connection attempt fails: the node's
  \<open>failures\<close> counter goes up by one, \<open>healthy\<close> is set to false, and a timer is armed
  that runs \<open>connectToNode\<close> again after \<open>ReconnectInterval\<close>. Nothing in it looks at
  \<open>closed\<close> or at the context: on a closed pool the attempt still dials and still arms
  the next timer.
\<close>

theorem connectToNode_failure:
  assumes "i < length (nodes p)" and "\<not> connecting (nodes p ! i)"
  shows "connectToNode i (ConnectFailed e) p
           = (p\<lparr>nodes := (nodes p)[i := (nodes p ! i)\<lparr>failures := failures (nodes p ! i) + 1,
                                                     healthy := False, connecting := False\<rparr>]\<rparr>,
              [Dial (URL (nodes p ! i)), AfterFunc (ReconnectInterval (config p)) (ConnectToNode i)])
         \<and> failures (nodes (fst (connectToNode i (ConnectFailed e) p)) ! i) = failures (nodes p ! i) + 1
         \<and> \<not> healthy (nodes (fst (connectToNode i (ConnectFailed e) p)) ! i)"
  using assms by (simp add: connectToNode_def Let_def)

text \<open>The timer armed before \<open>Close\<close> fires on the closed pool.\<close>

theorem connectToNode_failure_witness:
  "closed down_pool \<and> ctx_cancelled down_pool
   \<and> snd (connectToNode 0 (ConnectFailed ''connection refused'') down_pool)
       = [Dial ''amqp://down:5672'', AfterFunc (5 * Second) (ConnectToNode 0)]
   \<and> failures (nodes (fst (connectToNode 0 (ConnectFailed ''connection refused'') down_pool)) ! 0) = 2"
  using connectToNode_failure [of 0 down_pool "''connection refused''"]
  by (simp add: down_pool_def example_defs Close_def Let_def)

subsection \<open>Weights\<close>

lemma set_weight_loop_first:
  "i < length ns \<Longrightarrow> URL (ns ! i) = url \<Longrightarrow> (\<forall>j<i. URL (ns ! j) \<noteq> url)
   \<Longrightarrow> set_weight_loop ns url w = Some (ns[i := (ns ! i)\<lparr>weight := w\<rparr>])"
proof (induction ns arbitrary: i)
  case Nil
  then show ?case by simp
next
  case (Cons n ns)
  show ?case
  proof (cases i)
    case 0
    with Cons.prems show ?thesis by simp
  next
    case (Suc k)
    with Cons.prems have "URL n \<noteq> url" by auto
    moreover have "set_weight_loop ns url w = Some (ns[k := (ns ! k)\<lparr>weight := w\<rparr>])"
      using Cons.prems Suc by (intro Cons.IH) auto
    ultimately show ?thesis using Suc by simp
  qed
qed

lemma total_weight_loop_eq:
  "total_weight_loop ns hs acc = acc + sum_list (map (\<lambda>i. weight (ns ! i)) hs)"
  by (induction hs arbitrary: acc) (auto simp: algebra_simps)

lemma GetClient_negative_weight:
  assumes "\<not> closed p" "LoadBalanceStrategy (config p) = WeightedRoundRobin"
    "getHealthyNodes p \<noteq> []" "sint (healthy_weight p) < 0"
  shows "fst (GetClient now raw p) = Panic IntnInvalidArgument"
proof -
  let ?p1 = "p\<lparr>totalRequests := totalRequests p + 1\<rparr>"
  have h: "getHealthyNodes ?p1 = getHealthyNodes p" by (simp add: getHealthyNodes_def)
  have nz: "healthy_weight p \<noteq> 0" using assms(4) by auto
  have "select_node raw ?p1 = (Panic IntnInvalidArgument, ?p1)"
    using assms nz
    by (simp add: select_node_def getClientWeightedRoundRobin_def h total_weight_loop_eq
        healthy_weight_def rand_Intn_def RoundRobin_def Random_def LeastUsed_def
        WeightedRoundRobin_def Let_def)
  then show ?thesis using assms(1) by (simp add: GetClient_def Let_def)
qed

lemma negative_pool_facts:
  "\<not> closed negative_pool \<and> LoadBalanceStrategy (config negative_pool) = WeightedRoundRobin
   \<and> getHealthyNodes negative_pool = [0, 1] \<and> healthy_weight negative_pool = - 2"
  by (simp add: negative_pool_def SetNodeWeight_def example_defs getHealthyNodes_def node_usable_def
      IsConnected_def healthy_weight_def upt_rec [of 0] upt_rec [of 1] upt_rec [of 2] Let_def)

text \<open>
  C9. \<open>SetNodeWeight\<close> stores whatever weight it is given, zero and negative ones
  included, in the first node with the given URL. When the weights of the healthy nodes
  sum to a negative number, \<open>GetClient\<close> under \<open>WeightedRoundRobin\<close> panics in
  \<open>rand.Intn\<close>: only a sum of exactly zero takes the round-robin fallback. Such a pool
  state exists.
\<close>

theorem negative_weight_panics:
  "(i < length (nodes p) \<and> URL (nodes p ! i) = url \<and> (\<forall>j<i. URL (nodes p ! j) \<noteq> url)
      \<longrightarrow> SetNodeWeight url w p = (None, p\<lparr>nodes := (nodes p)[i := (nodes p ! i)\<lparr>weight := w\<rparr>]\<rparr>))
   \<and> (\<not> closed p \<and> LoadBalanceStrategy (config p) = WeightedRoundRobin
      \<and> getHealthyNodes p \<noteq> [] \<and> sint (healthy_weight p) < 0
      \<longrightarrow> fst (GetClient now raw p) = Panic IntnInvalidArgument)
   \<and> (\<exists>q. \<not> closed q \<and> LoadBalanceStrategy (config q) = WeightedRoundRobin
          \<and> getHealthyNodes q \<noteq> [] \<and> sint (healthy_weight q) < 0)"
proof (intro conjI impI)
  assume "i < length (nodes p) \<and> URL (nodes p ! i) = url \<and> (\<forall>j<i. URL (nodes p ! j) \<noteq> url)"
  then show "SetNodeWeight url w p = (None, p\<lparr>nodes := (nodes p)[i := (nodes p ! i)\<lparr>weight := w\<rparr>]\<rparr>)"
    using set_weight_loop_first [of i "nodes p" url w] by (simp add: SetNodeWeight_def)
next
  assume "\<not> closed p \<and> LoadBalanceStrategy (config p) = WeightedRoundRobin
      \<and> getHealthyNodes p \<noteq> [] \<and> sint (healthy_weight p) < 0"
  then show "fst (GetClient now raw p) = Panic IntnInvalidArgument"
    by (simp add: GetClient_negative_weight)
next
  show "\<exists>q. \<not> closed q \<and> LoadBalanceStrategy (config q) = WeightedRoundRobin
          \<and> getHealthyNodes q \<noteq> [] \<and> sint (healthy_weight q) < 0"
    by (rule exI [of _ negative_pool]) (simp add: negative_pool_facts)
qed

text \<open>Two healthy nodes of weight 1; the first is given weight -3; the next call panics.\<close>

theorem negative_weight_panics_witness:
  "weight (nodes negative_pool ! 0) = - 3
   \<and> fst (GetClient 7 5 negative_pool) = Panic IntnInvalidArgument"
  using negative_weight_panics [of 0 "running_pool WeightedRoundRobin" "''amqp://a:5672''" "- 3" 7 5]
    negative_weight_panics [of 0 negative_pool "''amqp://a:5672''" "- 3" 7 5]
    negative_pool_facts
  by (simp add: negative_pool_def example_defs Let_def)

subsection \<open>Selection\<close>

lemma go_rem_less: "0 < b \<Longrightarrow> go_rem a b < b"
proof -
  assume b: "0 < b"
  have "\<bar>a\<bar> mod \<bar>b\<bar> < b" "0 \<le> \<bar>a\<bar> mod \<bar>b\<bar>" using b by auto
  then show ?thesis
    by (cases "a < 0"; cases "a = 0") (auto simp: go_rem_def sgn_if)
qed

lemma getHealthyNodes_less: "i \<in> set (getHealthyNodes p) \<Longrightarrow> i < length (nodes p)"
  by (auto simp: getHealthyNodes_def)

lemma getHealthyNodes_usable: "i \<in> set (getHealthyNodes p) \<Longrightarrow> node_usable (nodes p ! i)"
  by (auto simp: getHealthyNodes_def)

lemma getHealthyNodes_sorted: "sorted_wrt (<) (getHealthyNodes p)"
  unfolding getHealthyNodes_def by (intro sorted_wrt_filter) simp

lemma least_used_loop_mem:
  "least_used_loop ns hs sel m = Some i \<Longrightarrow> sel = Some i \<or> i \<in> set hs"
  by (induction hs arbitrary: sel m) (auto simp: Let_def split: if_splits)

lemma weighted_walk_mem: "weighted_walk ns hs d c = Some i \<Longrightarrow> i \<in> set hs"
  by (induction hs arbitrary: c) (auto simp: Let_def split: if_splits)

lemma getClientRoundRobin_frame:
  "snd (getClientRoundRobin p) = p \<or> snd (getClientRoundRobin p) = p\<lparr>roundRobin := roundRobin p + 1\<rparr>"
  by (simp add: getClientRoundRobin_def Let_def)

lemma getClientRoundRobin_result:
  "getHealthyNodes p \<noteq> [] \<Longrightarrow>
     (\<exists>i\<in>set (getHealthyNodes p). fst (getClientRoundRobin p) = Ok (Some i))
     \<or> (\<exists>k. fst (getClientRoundRobin p) = Panic k)"
proof -
  assume ne: "getHealthyNodes p \<noteq> []"
  let ?hs = "getHealthyNodes p"
  let ?idx = "go_rem (sint (roundRobin p + 1)) (int (length ?hs))"
  have "?idx < int (length ?hs)" using ne by (intro go_rem_less) simp
  then have "0 \<le> ?idx \<Longrightarrow> ?hs ! nat ?idx \<in> set ?hs" by (intro nth_mem) linarith
  then show ?thesis using ne by (auto simp: getClientRoundRobin_def Let_def)
qed

lemma getClientRandom_result:
  "getHealthyNodes p \<noteq> [] \<Longrightarrow>
     (\<exists>i\<in>set (getHealthyNodes p). getClientRandom raw p = (Ok (Some i), p))"
proof -
  assume ne: "getHealthyNodes p \<noteq> []"
  let ?hs = "getHealthyNodes p"
  have "nat (int raw mod int (length ?hs)) < length ?hs" using ne
    by (simp add: nat_less_iff)
  then have "?hs ! nat (int raw mod int (length ?hs)) \<in> set ?hs" by (rule nth_mem)
  then show ?thesis using ne by (auto simp: getClientRandom_def rand_Intn_def Let_def)
qed

lemma getClientLeastUsed_result:
  "getHealthyNodes p \<noteq> [] \<Longrightarrow>
     (\<exists>i\<in>set (getHealthyNodes p). getClientLeastUsed p = (Ok (Some i), p))
     \<or> getClientLeastUsed p = (Ok None, p)"
  using least_used_loop_mem [of "nodes p" "getHealthyNodes p" None MaxInt64]
  by (cases "least_used_loop (nodes p) (getHealthyNodes p) None MaxInt64")
     (auto simp: getClientLeastUsed_def Let_def)

lemma getClientWeightedRoundRobin_frame:
  "snd (getClientWeightedRoundRobin raw p) = p
   \<or> snd (getClientWeightedRoundRobin raw p) = p\<lparr>roundRobin := roundRobin p + 1\<rparr>"
  using getClientRoundRobin_frame [of p]
  by (auto simp: getClientWeightedRoundRobin_def rand_Intn_def Let_def split: option.splits)

lemma getClientWeightedRoundRobin_result:
  "getHealthyNodes p \<noteq> [] \<Longrightarrow>
     (\<exists>i\<in>set (getHealthyNodes p). fst (getClientWeightedRoundRobin raw p) = Ok (Some i))
     \<or> (\<exists>k. fst (getClientWeightedRoundRobin raw p) = Panic k)"
  using getClientRoundRobin_result [of p] weighted_walk_mem [of "nodes p" "getHealthyNodes p"]
  by (auto simp: getClientWeightedRoundRobin_def rand_Intn_def Let_def nth_mem split: option.splits)

lemma select_node_frame:
  "snd (select_node raw p) = p \<or> snd (select_node raw p) = p\<lparr>roundRobin := roundRobin p + 1\<rparr>"
  using getClientRoundRobin_frame [of p] getClientWeightedRoundRobin_frame [of raw p]
    getClientRandom_result [of p raw]
  by (cases "getHealthyNodes p = []")
     (auto simp: select_node_def getClientRandom_def getClientLeastUsed_def Let_def)

lemma select_node_empty:
  "getHealthyNodes p = [] \<Longrightarrow> fst (select_node raw p) = Err ErrNoHealthyNodes"
  by (simp add: select_node_def getClientRoundRobin_def getClientRandom_def getClientLeastUsed_def
      getClientWeightedRoundRobin_def Let_def)

lemma select_node_result:
  "getHealthyNodes p \<noteq> [] \<Longrightarrow>
     (\<exists>i\<in>set (getHealthyNodes p). fst (select_node raw p) = Ok (Some i))
     \<or> fst (select_node raw p) = Ok None \<or> (\<exists>k. fst (select_node raw p) = Panic k)"
  using getClientRoundRobin_result [of p] getClientWeightedRoundRobin_result [of p raw]
    getClientRandom_result [of p raw] getClientLeastUsed_result [of p]
  by (auto simp: select_node_def Let_def)

lemma select_node_requests:
  "select_node raw (p\<lparr>totalRequests := x\<rparr>)
     = (fst (select_node raw p), (snd (select_node raw p))\<lparr>totalRequests := x\<rparr>)"
proof -
  have h: "getHealthyNodes (p\<lparr>totalRequests := x\<rparr>) = getHealthyNodes p"
    by (simp add: getHealthyNodes_def)
  have rr: "getClientRoundRobin (p\<lparr>totalRequests := x\<rparr>)
     = (fst (getClientRoundRobin p), (snd (getClientRoundRobin p))\<lparr>totalRequests := x\<rparr>)"
    by (simp add: getClientRoundRobin_def h Let_def)
  have rnd: "getClientRandom raw (p\<lparr>totalRequests := x\<rparr>)
     = (fst (getClientRandom raw p), (snd (getClientRandom raw p))\<lparr>totalRequests := x\<rparr>)"
    by (simp add: getClientRandom_def h rand_Intn_def Let_def)
  have lu: "getClientLeastUsed (p\<lparr>totalRequests := x\<rparr>)
     = (fst (getClientLeastUsed p), (snd (getClientLeastUsed p))\<lparr>totalRequests := x\<rparr>)"
    by (simp add: getClientLeastUsed_def h Let_def)
  have w: "getClientWeightedRoundRobin raw (p\<lparr>totalRequests := x\<rparr>)
     = (fst (getClientWeightedRoundRobin raw p), (snd (getClientWeightedRoundRobin raw p))\<lparr>totalRequests := x\<rparr>)"
    by (simp add: getClientWeightedRoundRobin_def h rr rand_Intn_def Let_def split: option.splits)
  show ?thesis by (simp add: select_node_def rr rnd lu w Let_def)
qed

text \<open>How the answer of \<open>GetClient\<close> follows from the selector's.\<close>

lemma GetClient_selected:
  assumes "\<not> closed p" "fst (select_node raw p) = Ok (Some i)" "i \<in> set (getHealthyNodes p)"
  shows "GetClient now raw p
           = (Ok (i, Client (nodes p ! i)),
              (snd (select_node raw p))\<lparr>totalRequests := totalRequests p + 1,
                 nodes := (nodes p)[i := use_node now (nodes p ! i)]\<rparr>)"
proof -
  have n: "nodes (snd (select_node raw p)) = nodes p"
    using select_node_frame [of raw p] by auto
  have i: "i < length (nodes p)" using assms(3) by (rule getHealthyNodes_less)
  show ?thesis using assms(1,2) n i
    by (simp add: GetClient_def select_node_requests use_node_def Let_def)
qed

text \<open>
  C1. What \<open>GetClient\<close> counts and answers. Every call adds one to \<open>totalRequests\<close>.
  On a closed pool the call fails with \<open>ErrPoolClosed\<close> and leaves \<open>totalFailures\<close> as
  it was. On an open pool without a healthy node it fails with \<open>ErrNoHealthyNodes\<close> and
  adds one to \<open>totalFailures\<close>. On an open pool with a healthy node it leaves
  \<open>totalFailures\<close> alone and returns the client of a node of the healthy set, unless the
  selection panics.
\<close>

theorem GetClient_accounting:
  "totalRequests (snd (GetClient now raw p)) = totalRequests p + 1
   \<and> (closed p \<longrightarrow> fst (GetClient now raw p) = Err ErrPoolClosed
                   \<and> totalFailures (snd (GetClient now raw p)) = totalFailures p)
   \<and> (\<not> closed p \<and> getHealthyNodes p = [] \<longrightarrow>
        fst (GetClient now raw p) = Err ErrNoHealthyNodes
        \<and> totalFailures (snd (GetClient now raw p)) = totalFailures p + 1)
   \<and> (\<not> closed p \<and> getHealthyNodes p \<noteq> [] \<longrightarrow>
        totalFailures (snd (GetClient now raw p)) = totalFailures p
        \<and> ((\<exists>i\<in>set (getHealthyNodes p). fst (GetClient now raw p) = Ok (i, Client (nodes p ! i)))
            \<or> (\<exists>k. fst (GetClient now raw p) = Panic k)))"
proof -
  let ?s = "select_node raw p"
  have fr: "snd ?s = p \<or> snd ?s = p\<lparr>roundRobin := roundRobin p + 1\<rparr>"
    by (rule select_node_frame)
  have req: "totalRequests (snd (GetClient now raw p)) = totalRequests p + 1"
    using fr by (cases "fst ?s"; cases "closed p")
      (auto simp: GetClient_def select_node_requests Let_def split: outcome.splits option.splits)
  have cl: "closed p \<Longrightarrow> GetClient now raw p = (Err ErrPoolClosed, p\<lparr>totalRequests := totalRequests p + 1\<rparr>)"
    by (simp add: GetClient_def Let_def)
  have em: "\<not> closed p \<Longrightarrow> getHealthyNodes p = [] \<Longrightarrow>
        fst (GetClient now raw p) = Err ErrNoHealthyNodes
        \<and> totalFailures (snd (GetClient now raw p)) = totalFailures p + 1"
    using fr select_node_empty [of p raw]
    by (auto simp: GetClient_def select_node_requests Let_def)
  have ne: "totalFailures (snd (GetClient now raw p)) = totalFailures p
        \<and> ((\<exists>i\<in>set (getHealthyNodes p). fst (GetClient now raw p) = Ok (i, Client (nodes p ! i)))
            \<or> (\<exists>k. fst (GetClient now raw p) = Panic k))"
    if a: "\<not> closed p" "getHealthyNodes p \<noteq> []"
  proof -
    consider i where "i \<in> set (getHealthyNodes p)" "fst ?s = Ok (Some i)"
      | "fst ?s = Ok None" | k where "fst ?s = Panic k"
      using select_node_result [OF a(2), of raw] by blast
    then show ?thesis
    proof cases
      case 1
      then show ?thesis using GetClient_selected [OF a(1) 1(2) 1(1), of now] fr by auto
    next
      case 2
      then show ?thesis using a(1) fr
        by (auto simp: GetClient_def select_node_requests Let_def)
    next
      case 3
      then show ?thesis using a(1) fr
        by (auto simp: GetClient_def select_node_requests Let_def)
    qed
  qed
  show ?thesis using req cl em ne by simp
qed

text \<open>A closed pool, a pool not started yet, and a running pool.\<close>

theorem GetClient_accounting_witness:
  "closed down_pool
   \<and> GetClient 1 0 down_pool = (Err ErrPoolClosed, down_pool\<lparr>totalRequests := 1\<rparr>)
   \<and> totalFailures (snd (GetClient 1 0 down_pool)) = totalFailures down_pool
   \<and> fst (GetClient 1 0 (NewPool getDefaultConfig 0 three_urls)) = Err ErrNoHealthyNodes
   \<and> totalFailures (snd (GetClient 1 0 (NewPool getDefaultConfig 0 three_urls))) = 1
   \<and> totalFailures (snd (GetClient 1 0 (running_pool RoundRobin))) = 0"
  using GetClient_accounting [of 1 0 down_pool] GetClient_accounting [of 1 0 "NewPool getDefaultConfig 0 three_urls"]
    GetClient_accounting [of 1 0 "running_pool RoundRobin"]
  by (simp add: down_pool_def example_defs Close_def GetClient_def getHealthyNodes_def
      node_usable_def IsConnected_def upt_rec [of 0] upt_rec [of 1] upt_rec [of 2] Let_def)

subsection \<open>Weighted selection\<close>

lemma weighted_walk_None:
  "weighted_walk ns hs d c = None \<Longrightarrow> k < length hs
   \<Longrightarrow> \<not> d < sint (c + sum_list (map (\<lambda>i. weight (ns ! i)) (take (Suc k) hs)))"
proof (induction hs arbitrary: c k)
  case Nil
  then show ?case by simp
next
  case (Cons h hs)
  from Cons.prems(1) have a: "\<not> d < sint (c + weight (ns ! h))"
    and b: "weighted_walk ns hs d (c + weight (ns ! h)) = None"
    by (auto simp: Let_def split: if_splits)
  show ?case
  proof (cases k)
    case 0
    then show ?thesis using a by simp
  next
    case (Suc m)
    then have "m < length hs" using Cons.prems(2) by simp
    from Cons.IH [OF b this] show ?thesis using Suc by (simp add: add.assoc)
  qed
qed

lemma weighted_walk_Some:
  "weighted_walk ns hs d c = Some i \<Longrightarrow>
   \<exists>k<length hs. i = hs ! k
      \<and> d < sint (c + sum_list (map (\<lambda>i. weight (ns ! i)) (take (Suc k) hs)))
      \<and> (\<forall>j<k. \<not> d < sint (c + sum_list (map (\<lambda>i. weight (ns ! i)) (take (Suc j) hs))))"
proof (induction hs arbitrary: c)
  case Nil
  then show ?case by simp
next
  case (Cons h hs)
  show ?case
  proof (cases "d < sint (c + weight (ns ! h))")
    case True
    with Cons.prems have "i = h" by (simp add: Let_def)
    with True show ?thesis by (intro exI [of _ 0]) simp
  next
    case False
    with Cons.prems have "weighted_walk ns hs d (c + weight (ns ! h)) = Some i"
      by (simp add: Let_def)
    from Cons.IH [OF this] obtain k where k: "k < length hs" "i = hs ! k"
      "d < sint (c + weight (ns ! h) + sum_list (map (\<lambda>i. weight (ns ! i)) (take (Suc k) hs)))"
      "\<forall>j<k. \<not> d < sint (c + weight (ns ! h) + sum_list (map (\<lambda>i. weight (ns ! i)) (take (Suc j) hs)))"
      by blast
    have "\<forall>j<Suc k. \<not> d < sint (c + sum_list (map (\<lambda>i. weight (ns ! i)) (take (Suc j) (h # hs))))"
    proof (intro allI impI)
      fix j assume "j < Suc k"
      then show "\<not> d < sint (c + sum_list (map (\<lambda>i. weight (ns ! i)) (take (Suc j) (h # hs))))"
        using False k(4) by (cases j) (auto simp: add.assoc)
    qed
    then show ?thesis using k(1,2,3) by (intro exI [of _ "Suc k"]) (simp add: add.assoc)
  qed
qed

lemma take_Suc_sum:
  "k < length hs \<Longrightarrow> sum_list (map f (take (Suc k) hs)) = sum_list (map f (take k hs)) + f (hs ! k)"
  by (simp add: take_Suc_conv_app_nth)

text \<open>
  C3. Under \<open>WeightedRoundRobin\<close> the total weight is the sum of the weights over the
  healthy set. If it is zero the selection is that of \<open>RoundRobin\<close>. If it is positive,
  a number \<open>r\<close> with \<open>0 \<le> r < totalWeight\<close> is drawn and the node returned is the first
  healthy node, in index order, whose running weight sum is strictly above \<open>r\<close>; the
  weight of that node is never zero. (That \<open>rand.Intn\<close> draws uniformly is a property of
  the generator, which the model takes as an argument.)
\<close>

theorem weighted_selection:
  assumes "getHealthyNodes p \<noteq> []"
  shows "total_weight_loop (nodes p) (getHealthyNodes p) 0 = healthy_weight p
   \<and> (healthy_weight p = 0 \<longrightarrow> getClientWeightedRoundRobin raw p = getClientRoundRobin p)
   \<and> (0 < sint (healthy_weight p) \<longrightarrow>
        (\<exists>r k. rand_Intn (sint (healthy_weight p)) raw = Ok r \<and> 0 \<le> r \<and> r < sint (healthy_weight p)
           \<and> k < length (getHealthyNodes p)
           \<and> getClientWeightedRoundRobin raw p = (Ok (Some (getHealthyNodes p ! k)), p)
           \<and> r < sint (running_weight p (Suc k))
           \<and> (\<forall>j<k. \<not> r < sint (running_weight p (Suc j)))
           \<and> weight (nodes p ! (getHealthyNodes p ! k)) \<noteq> 0
           \<and> (\<not> closed p \<and> LoadBalanceStrategy (config p) = WeightedRoundRobin \<longrightarrow>
                fst (GetClient now raw p)
                  = Ok (getHealthyNodes p ! k, Client (nodes p ! (getHealthyNodes p ! k))))))"
proof (intro conjI impI)
  let ?hs = "getHealthyNodes p"
  let ?w = "\<lambda>i. weight (nodes p ! i)"
  show tw: "total_weight_loop (nodes p) ?hs 0 = healthy_weight p"
    by (simp add: total_weight_loop_eq healthy_weight_def)
  show "getClientWeightedRoundRobin raw p = getClientRoundRobin p" if "healthy_weight p = 0"
    using that assms by (simp add: getClientWeightedRoundRobin_def tw Let_def)
  assume pos: "0 < sint (healthy_weight p)"
  define r where "r = int raw mod sint (healthy_weight p)"
  have r: "rand_Intn (sint (healthy_weight p)) raw = Ok r" "0 \<le> r" "r < sint (healthy_weight p)"
    using pos by (simp_all add: rand_Intn_def r_def)
  have nz: "healthy_weight p \<noteq> 0" using pos by auto
  have len: "length ?hs - 1 < length ?hs" using assms by simp
  have full: "take (Suc (length ?hs - 1)) ?hs = ?hs" using assms by simp
  have "weighted_walk (nodes p) ?hs r 0 \<noteq> None"
  proof
    assume "weighted_walk (nodes p) ?hs r 0 = None"
    from weighted_walk_None [OF this len] show False
      using r(3) by (simp add: full healthy_weight_def)
  qed
  then obtain i where i: "weighted_walk (nodes p) ?hs r 0 = Some i" by auto
  from weighted_walk_Some [OF i] obtain k where k: "k < length ?hs" "i = ?hs ! k"
    "r < sint (running_weight p (Suc k))" "\<forall>j<k. \<not> r < sint (running_weight p (Suc j))"
    by (auto simp: running_weight_def)
  have sel: "getClientWeightedRoundRobin raw p = (Ok (Some (?hs ! k)), p)"
    using assms nz r(1) i k(2) by (simp add: getClientWeightedRoundRobin_def tw Let_def)
  have wnz: "?w (?hs ! k) \<noteq> 0"
  proof
    assume z: "?w (?hs ! k) = 0"
    have eq: "running_weight p (Suc k) = running_weight p k"
      using k(1) z by (simp add: running_weight_def take_Suc_sum)
    show False
    proof (cases k)
      case 0
      then show ?thesis using k(3) r(2) eq by (simp add: running_weight_def)
    next
      case (Suc m)
      then show ?thesis using k(3,4) eq by auto
    qed
  qed
  have gc: "fst (GetClient now raw p) = Ok (?hs ! k, Client (nodes p ! (?hs ! k)))"
    if "\<not> closed p \<and> LoadBalanceStrategy (config p) = WeightedRoundRobin"
  proof -
    have "select_node raw p = getClientWeightedRoundRobin raw p"
      using that by (simp add: select_node_def RoundRobin_def Random_def LeastUsed_def
          WeightedRoundRobin_def Let_def)
    then have "fst (select_node raw p) = Ok (Some (?hs ! k))" using sel by simp
    from GetClient_selected [OF _ this, of now] that k(1) show ?thesis by simp
  qed
  show "\<exists>r k. rand_Intn (sint (healthy_weight p)) raw = Ok r \<and> 0 \<le> r \<and> r < sint (healthy_weight p)
           \<and> k < length (getHealthyNodes p)
           \<and> getClientWeightedRoundRobin raw p = (Ok (Some (getHealthyNodes p ! k)), p)
           \<and> r < sint (running_weight p (Suc k))
           \<and> (\<forall>j<k. \<not> r < sint (running_weight p (Suc j)))
           \<and> weight (nodes p ! (getHealthyNodes p ! k)) \<noteq> 0
           \<and> (\<not> closed p \<and> LoadBalanceStrategy (config p) = WeightedRoundRobin \<longrightarrow>
                fst (GetClient now raw p)
                  = Ok (getHealthyNodes p ! k, Client (nodes p ! (getHealthyNodes p ! k))))"
    using r k(1,3,4) sel wnz gc by blast
qed

lemma weighted_pool_facts:
  "\<not> closed weighted_pool \<and> LoadBalanceStrategy (config weighted_pool) = WeightedRoundRobin
   \<and> getHealthyNodes weighted_pool = [0, 1] \<and> healthy_weight weighted_pool = 1
   \<and> weight (nodes weighted_pool ! 0) = 0"
  by (simp add: weighted_pool_def SetNodeWeight_def example_defs getHealthyNodes_def node_usable_def
      IsConnected_def healthy_weight_def upt_rec [of 0] upt_rec [of 1] upt_rec [of 2] Let_def)

text \<open>Two healthy nodes, the first of weight 0, the second of weight 1.\<close>

theorem weighted_selection_witness:
  "getHealthyNodes weighted_pool = [0, 1] \<and> weight (nodes weighted_pool ! 0) = 0
   \<and> healthy_weight weighted_pool = 1
   \<and> fst (getClientWeightedRoundRobin 5 weighted_pool) = Ok (Some 1)"
proof -
  note f = weighted_pool_facts
  have ne: "getHealthyNodes weighted_pool \<noteq> []" using f by simp
  have pos: "0 < sint (healthy_weight weighted_pool)" using f by simp
  from weighted_selection [OF ne, of 5 0] pos
  obtain k where k: "k < length (getHealthyNodes weighted_pool)"
    "getClientWeightedRoundRobin 5 weighted_pool
       = (Ok (Some (getHealthyNodes weighted_pool ! k)), weighted_pool)"
    "weight (nodes weighted_pool ! (getHealthyNodes weighted_pool ! k)) \<noteq> 0"
    by blast
  have "k = 0 \<or> k = 1" using k(1) f by auto
  then have "k = 1" using k(3) f by auto
  then show ?thesis using k(2) f by simp
qed

subsection \<open>Least used\<close>

lemma least_used_loop_keep:
  "(\<forall>i\<in>set hs. \<not> sint (totalUsed (ns ! i)) < sint m) \<Longrightarrow> least_used_loop ns hs sel m = sel"
  by (induction hs arbitrary: sel m) (auto simp: Let_def)

lemma least_used_loop_first_min:
  "\<exists>i\<in>set hs. sint (totalUsed (ns ! i)) < sint m \<Longrightarrow>
   \<exists>k<length hs. least_used_loop ns hs sel m = Some (hs ! k)
      \<and> sint (totalUsed (ns ! (hs ! k))) < sint m
      \<and> (\<forall>j<length hs. sint (totalUsed (ns ! (hs ! k))) \<le> sint (totalUsed (ns ! (hs ! j))))
      \<and> (\<forall>j<k. sint (totalUsed (ns ! (hs ! k))) < sint (totalUsed (ns ! (hs ! j))))"
proof (induction hs arbitrary: sel m)
  case Nil
  then show ?case by simp
next
  case (Cons h hs)
  let ?u = "\<lambda>i. sint (totalUsed (ns ! i))"
  show ?case
  proof (cases "?u h < sint m")
    case True
    then have step: "least_used_loop ns (h # hs) sel m = least_used_loop ns hs (Some h) (totalUsed (ns ! h))"
      by (simp add: Let_def)
    show ?thesis
    proof (cases "\<exists>i\<in>set hs. ?u i < ?u h")
      case True
      from Cons.IH [OF True, of "Some h"] obtain k where k: "k < length hs"
        "least_used_loop ns hs (Some h) (totalUsed (ns ! h)) = Some (hs ! k)"
        "?u (hs ! k) < ?u h"
        "\<forall>j<length hs. ?u (hs ! k) \<le> ?u (hs ! j)"
        "\<forall>j<k. ?u (hs ! k) < ?u (hs ! j)"
        by blast
      have a: "\<forall>j<length (h # hs). ?u ((h # hs) ! Suc k) \<le> ?u ((h # hs) ! j)"
      proof (intro allI impI)
        fix j assume "j < length (h # hs)"
        then show "?u ((h # hs) ! Suc k) \<le> ?u ((h # hs) ! j)"
          using k(3,4) by (cases j) auto
      qed
      have b: "\<forall>j<Suc k. ?u ((h # hs) ! Suc k) < ?u ((h # hs) ! j)"
      proof (intro allI impI)
        fix j assume "j < Suc k"
        then show "?u ((h # hs) ! Suc k) < ?u ((h # hs) ! j)"
          using k(3,5) by (cases j) auto
      qed
      have c: "?u ((h # hs) ! Suc k) < sint m" using k(3) \<open>?u h < sint m\<close> by simp
      show ?thesis
        using k(1,2) step a b c by (intro exI [of _ "Suc k"]) simp
    next
      case False
      then have "least_used_loop ns hs (Some h) (totalUsed (ns ! h)) = Some h"
        by (intro least_used_loop_keep) auto
      moreover have "\<forall>j<length (h # hs). ?u h \<le> ?u ((h # hs) ! j)"
      proof (intro allI impI)
        fix j assume "j < length (h # hs)"
        then show "?u h \<le> ?u ((h # hs) ! j)"
          using False by (cases j) (auto simp: not_less)
      qed
      ultimately show ?thesis using step True by (intro exI [of _ 0]) simp
    qed
  next
    case False
    then have step: "least_used_loop ns (h # hs) sel m = least_used_loop ns hs sel m"
      by (simp add: Let_def)
    from Cons.prems False have "\<exists>i\<in>set hs. ?u i < sint m" by auto
    from Cons.IH [OF this, of sel] obtain k where k: "k < length hs"
      "least_used_loop ns hs sel m = Some (hs ! k)"
      "?u (hs ! k) < sint m"
      "\<forall>j<length hs. ?u (hs ! k) \<le> ?u (hs ! j)"
      "\<forall>j<k. ?u (hs ! k) < ?u (hs ! j)"
      by blast
    have lt: "?u (hs ! k) < ?u h" using k(3) False by simp
    have a: "\<forall>j<length (h # hs). ?u ((h # hs) ! Suc k) \<le> ?u ((h # hs) ! j)"
    proof (intro allI impI)
      fix j assume "j < length (h # hs)"
      then show "?u ((h # hs) ! Suc k) \<le> ?u ((h # hs) ! j)"
        using lt k(4) by (cases j) auto
    qed
    have b: "\<forall>j<Suc k. ?u ((h # hs) ! Suc k) < ?u ((h # hs) ! j)"
    proof (intro allI impI)
      fix j assume "j < Suc k"
      then show "?u ((h # hs) ! Suc k) < ?u ((h # hs) ! j)"
        using lt k(5) by (cases j) auto
    qed
    show ?thesis
      using k(1,2,3) step a b by (intro exI [of _ "Suc k"]) simp
  qed
qed

lemma GetClient_least_used:
  assumes "\<not> closed p" and "LoadBalanceStrategy (config p) = LeastUsed"
    and "\<exists>i\<in>set (getHealthyNodes p). sint (totalUsed (nodes p ! i)) < sint MaxInt64"
  shows "\<exists>i\<in>set (getHealthyNodes p).
           fst (GetClient now raw p) = Ok (i, Client (nodes p ! i))
           \<and> (\<forall>j\<in>set (getHealthyNodes p). sint (totalUsed (nodes p ! i)) \<le> sint (totalUsed (nodes p ! j)))
           \<and> (\<forall>j\<in>set (getHealthyNodes p). j < i \<longrightarrow>
                 sint (totalUsed (nodes p ! i)) < sint (totalUsed (nodes p ! j)))"
proof -
  let ?hs = "getHealthyNodes p"
  let ?u = "\<lambda>i. sint (totalUsed (nodes p ! i))"
  from least_used_loop_first_min [OF assms(3), of None] obtain k where k: "k < length ?hs"
    "least_used_loop (nodes p) ?hs None MaxInt64 = Some (?hs ! k)"
    "\<forall>j<length ?hs. ?u (?hs ! k) \<le> ?u (?hs ! j)"
    "\<forall>j<k. ?u (?hs ! k) < ?u (?hs ! j)"
    by blast
  have ne: "?hs \<noteq> []" using k(1) by auto
  have mem: "?hs ! k \<in> set ?hs" using k(1) by simp
  have "select_node raw p = getClientLeastUsed p"
    using assms(2) by (simp add: select_node_def RoundRobin_def Random_def LeastUsed_def Let_def)
  then have "fst (select_node raw p) = Ok (Some (?hs ! k))"
    using ne k(2) by (simp add: getClientLeastUsed_def Let_def)
  from GetClient_selected [OF assms(1) this mem, of now]
  have gc: "fst (GetClient now raw p) = Ok (?hs ! k, Client (nodes p ! (?hs ! k)))" by simp
  have min: "\<forall>j\<in>set ?hs. ?u (?hs ! k) \<le> ?u j"
    using k(3) by (auto simp: in_set_conv_nth)
  have first: "\<forall>j\<in>set ?hs. j < ?hs ! k \<longrightarrow> ?u (?hs ! k) < ?u j"
  proof (intro ballI impI)
    fix j assume j: "j \<in> set ?hs" "j < ?hs ! k"
    then obtain m where m: "m < length ?hs" "?hs ! m = j" by (auto simp: in_set_conv_nth)
    have "m < k"
    proof (rule ccontr)
      assume "\<not> m < k"
      then have "m = k \<or> k < m" by auto
      then show False
      proof
        assume "m = k" then show False using m j by simp
      next
        assume "k < m"
        from sorted_wrt_nth_less [OF getHealthyNodes_sorted this m(1)]
        show False using m j by simp
      qed
    qed
    then show "?u (?hs ! k) < ?u j" using k(4) m by auto
  qed
  show ?thesis using mem gc min first by blast
qed

lemma GetClient_least_used_fails:
  assumes "\<not> closed p" and "LoadBalanceStrategy (config p) = LeastUsed"
    and "\<forall>i\<in>set (getHealthyNodes p). \<not> sint (totalUsed (nodes p ! i)) < sint MaxInt64"
  shows "fst (GetClient now raw p) = Err ErrNoHealthyNodes
         \<or> fst (GetClient now raw p) = Panic NilDereference"
proof -
  have sel: "select_node raw p = getClientLeastUsed p"
    using assms(2) by (simp add: select_node_def RoundRobin_def Random_def LeastUsed_def Let_def)
  have "least_used_loop (nodes p) (getHealthyNodes p) None MaxInt64 = None"
    using assms(3) by (rule least_used_loop_keep)
  then show ?thesis using assms(1) sel
    by (auto simp: GetClient_def select_node_requests getClientLeastUsed_def Let_def)
qed

text \<open>
  C8. Under \<open>LeastUsed\<close>, a node returned by \<open>GetClient\<close> is a healthy node whose
  \<open>totalUsed\<close> is smallest, and every healthy node before it in the node list has a
  strictly larger \<open>totalUsed\<close>: on a tie the first one wins. A node is returned whenever
  some healthy node's counter is below the largest \<open>int64\<close>, the value the scan starts
  from; every counter is, until it has been incremented \<open>2^63 - 1\<close> times.
\<close>

theorem least_used_selection:
  "(\<not> closed p \<and> LoadBalanceStrategy (config p) = LeastUsed \<and> fst (GetClient now raw p) = Ok (i, c)
      \<longrightarrow> i \<in> set (getHealthyNodes p) \<and> c = Client (nodes p ! i)
          \<and> (\<forall>j\<in>set (getHealthyNodes p). sint (totalUsed (nodes p ! i)) \<le> sint (totalUsed (nodes p ! j)))
          \<and> (\<forall>j\<in>set (getHealthyNodes p). j < i \<longrightarrow>
                sint (totalUsed (nodes p ! i)) < sint (totalUsed (nodes p ! j))))
   \<and> (\<not> closed p \<and> LoadBalanceStrategy (config p) = LeastUsed
      \<and> (\<exists>j\<in>set (getHealthyNodes p). sint (totalUsed (nodes p ! j)) < sint MaxInt64)
      \<longrightarrow> (\<exists>i'\<in>set (getHealthyNodes p). fst (GetClient now raw p) = Ok (i', Client (nodes p ! i'))))"
proof (rule conjI; rule impI)
  assume a: "\<not> closed p \<and> LoadBalanceStrategy (config p) = LeastUsed \<and> fst (GetClient now raw p) = Ok (i, c)"
  have "\<exists>j\<in>set (getHealthyNodes p). sint (totalUsed (nodes p ! j)) < sint MaxInt64"
  proof (rule ccontr)
    assume "\<not> (\<exists>j\<in>set (getHealthyNodes p). sint (totalUsed (nodes p ! j)) < sint MaxInt64)"
    then have "\<forall>j\<in>set (getHealthyNodes p). \<not> sint (totalUsed (nodes p ! j)) < sint MaxInt64"
      by simp
    from GetClient_least_used_fails [OF _ _ this, of now raw] a show False by auto
  qed
  from GetClient_least_used [OF _ _ this, of now raw] a
  show "i \<in> set (getHealthyNodes p) \<and> c = Client (nodes p ! i)
          \<and> (\<forall>j\<in>set (getHealthyNodes p). sint (totalUsed (nodes p ! i)) \<le> sint (totalUsed (nodes p ! j)))
          \<and> (\<forall>j\<in>set (getHealthyNodes p). j < i \<longrightarrow>
                sint (totalUsed (nodes p ! i)) < sint (totalUsed (nodes p ! j)))"
    by auto
next
  assume "\<not> closed p \<and> LoadBalanceStrategy (config p) = LeastUsed
      \<and> (\<exists>j\<in>set (getHealthyNodes p). sint (totalUsed (nodes p ! j)) < sint MaxInt64)"
  then show "\<exists>i'\<in>set (getHealthyNodes p). fst (GetClient now raw p) = Ok (i', Client (nodes p ! i'))"
    using GetClient_least_used [of p now raw] by blast
qed

text \<open>Two healthy nodes, each used once: the tie goes to the first.\<close>

theorem least_used_selection_witness:
  "getHealthyNodes used_pool = [0, 1]
   \<and> totalUsed (nodes used_pool ! 0) = 1 \<and> totalUsed (nodes used_pool ! 1) = 1
   \<and> fst (GetClient 4 0 used_pool) = Ok (0, Client (nodes used_pool ! 0))"
  using least_used_selection [of used_pool 4 0 0 "Client (nodes used_pool ! 0)"]
  by (simp add: used_pool_def example_defs GetClient_def select_node_def getClientLeastUsed_def
      getHealthyNodes_def node_usable_def IsConnected_def use_node_def MaxInt64_def
      RoundRobin_def Random_def LeastUsed_def
      upt_rec [of 0] upt_rec [of 1] upt_rec [of 2] Let_def)

subsection \<open>Round robin\<close>

lemma go_rem_nonneg: "0 < b \<Longrightarrow> 0 \<le> go_rem a b \<Longrightarrow> go_rem a b = a mod b"
proof -
  assume b: "0 < b" and g: "0 \<le> go_rem a b"
  show ?thesis
  proof (cases "a < 0")
    case False
    then show ?thesis using b by (cases "a = 0") (auto simp: go_rem_def sgn_if)
  next
    case True
    then have "go_rem a b = - ((- a) mod b)" using b by (simp add: go_rem_def sgn_if)
    moreover have "0 \<le> (- a) mod b" using b by simp
    ultimately have z: "(- a) mod b = 0" "go_rem a b = 0" using g by auto
    then have "b dvd a" by (simp add: dvd_eq_mod_eq_0 [symmetric])
    then show ?thesis using z by simp
  qed
qed

lemma go_rem_of_nonneg: "0 < b \<Longrightarrow> 0 \<le> a \<Longrightarrow> go_rem a b = a mod b"
  by (cases "a = 0") (auto simp: go_rem_def sgn_if)

lemma sint_succ:
  fixes c :: "64 word"
  shows "sint c + 1 < 2 ^ 63 \<Longrightarrow> sint (c + 1) = sint c + 1"
proof -
  assume a: "sint c + 1 < 2 ^ 63"
  have "- (2 ^ 63) \<le> sint c" using sint_ge [of c] by simp
  then have "- (2 ^ 63) \<le> sint c + 1" by simp
  then show ?thesis using a
    by (simp add: sint_word_ariths signed_take_bit_int_eq_self)
qed

lemma period_count:
  assumes "0 < N" "i < N"
  shows "length (filter (\<lambda>j. j mod N = i) [m..<m + N]) = 1"
proof (induction m)
  case 0
  have "{x. x mod N = i} \<inter> set [0..<N] = {i}" using assms by auto
  then show ?case by (simp add: distinct_length_filter)
next
  case (Suc m)
  have a: "[m..<m + N] = m # [Suc m..<m + N]" using assms(1) by (simp add: upt_conv_Cons)
  have b: "[Suc m..<Suc m + N] = [Suc m..<m + N] @ [m + N]" using assms(1) by simp
  show ?case using Suc.IH unfolding a b by (simp split: if_splits)
qed

lemma window_count:
  assumes "0 < N" "i < N"
  shows "length (filter (\<lambda>j. j mod N = i) [m..<m + K * N]) = K"
proof (induction K)
  case 0
  then show ?case by simp
next
  case (Suc K)
  have "[m..<m + Suc K * N] = [m..<m + K * N] @ [m + K * N..<m + K * N + N]"
    using upt_add_eq_append [of m "m + K * N" N] by (simp add: add.commute add.left_commute)
  then show ?case using Suc.IH period_count [OF assms, of "m + K * N"] by simp
qed

lemma count_list_map:
  "count_list (map f xs) y = length (filter (\<lambda>x. f x = y) xs)"
  by (induction xs) auto

lemma count_shifted:
  assumes "0 < N" "i < N"
  shows "count_list (map (\<lambda>j. Some ((m + j) mod N)) [0..<K * N]) (Some i) = K"
proof -
  have "count_list (map (\<lambda>j. Some ((m + j) mod N)) [0..<K * N]) (Some i)
        = length (filter (\<lambda>j. (m + j) mod N = i) [0..<K * N])"
    by (simp add: count_list_map)
  also have "\<dots> = length (filter (\<lambda>j. j mod N = i) (map (\<lambda>j. j + m) [0..<K * N]))"
    by (simp add: filter_map comp_def add.commute)
  also have "map (\<lambda>j. j + m) [0..<K * N] = [m..<m + K * N]"
    by (metis map_add_upt add.commute)
  finally show ?thesis using window_count [OF assms] by simp
qed


lemma all_usable_healthy:
  "\<forall>n\<in>set (nodes p). node_usable n \<Longrightarrow> getHealthyNodes p = [0..<length (nodes p)]"
  by (simp add: getHealthyNodes_def)

lemma node_usable_use_node: "node_usable (use_node now n) = node_usable n"
  by (simp add: node_usable_def use_node_def)

lemma select_node_RoundRobin:
  "LoadBalanceStrategy (config p) = RoundRobin \<Longrightarrow> select_node raw p = getClientRoundRobin p"
  by (simp add: select_node_def Let_def)

lemma GetClient_round_robin_index:
  assumes "\<not> closed p" "LoadBalanceStrategy (config p) = RoundRobin"
    "fst (GetClient now raw p) = Ok (i, c)"
  shows "getHealthyNodes p \<noteq> []
     \<and> i = getHealthyNodes p ! nat (sint (roundRobin p + 1) mod int (length (getHealthyNodes p)))
     \<and> roundRobin (snd (GetClient now raw p)) = roundRobin p + 1"
proof -
  let ?hs = "getHealthyNodes p"
  let ?idx = "go_rem (sint (roundRobin p + 1)) (int (length ?hs))"
  have ne: "?hs \<noteq> []"
    using assms by (auto simp: GetClient_def select_node_requests select_node_RoundRobin
        getClientRoundRobin_def Let_def)
  have nn: "0 \<le> ?idx"
    using assms ne by (auto simp: GetClient_def select_node_requests select_node_RoundRobin
        getClientRoundRobin_def Let_def split: if_splits)
  have sel: "getClientRoundRobin p = (Ok (Some (?hs ! nat ?idx)), p\<lparr>roundRobin := roundRobin p + 1\<rparr>)"
    using ne nn by (simp add: getClientRoundRobin_def Let_def)
  have "?idx < int (length ?hs)" using ne by (intro go_rem_less) simp
  then have mem: "?hs ! nat ?idx \<in> set ?hs" using nn by (intro nth_mem) linarith
  have "fst (select_node raw p) = Ok (Some (?hs ! nat ?idx))"
    using sel assms(2) by (simp add: select_node_RoundRobin)
  from GetClient_selected [OF assms(1) this mem, of now] assms(3) sel assms(2)
  have "i = ?hs ! nat ?idx" "roundRobin (snd (GetClient now raw p)) = roundRobin p + 1"
    by (simp_all add: select_node_RoundRobin)
  moreover have "?idx = sint (roundRobin p + 1) mod int (length ?hs)"
    using ne nn by (intro go_rem_nonneg) simp_all
  ultimately show ?thesis using ne by simp
qed

lemma GetClient_round_robin_step:
  assumes "\<not> closed p" "LoadBalanceStrategy (config p) = RoundRobin"
    "\<forall>n\<in>set (nodes p). node_usable n" "0 < length (nodes p)"
    "0 \<le> sint (roundRobin p)" "sint (roundRobin p) + 1 < 2 ^ 63"
  defines "i \<equiv> (nat (sint (roundRobin p)) + 1) mod length (nodes p)"
  shows "GetClient now raw p
           = (Ok (i, Client (nodes p ! i)),
              p\<lparr>roundRobin := roundRobin p + 1, totalRequests := totalRequests p + 1,
                nodes := (nodes p)[i := use_node now (nodes p ! i)]\<rparr>)"
proof -
  let ?N = "length (nodes p)"
  have hs: "getHealthyNodes p = [0..<?N]" using assms(3) by (rule all_usable_healthy)
  have s: "sint (roundRobin p + 1) = sint (roundRobin p) + 1" using assms(6) by (rule sint_succ)
  define a where "a = nat (sint (roundRobin p))"
  have sa: "sint (roundRobin p) = int a" using assms(5) by (simp add: a_def)
  have "go_rem (sint (roundRobin p + 1)) (int ?N) = (int a + 1) mod int ?N"
    using assms(4) s sa by (simp add: go_rem_of_nonneg)
  also have "\<dots> = int ((a + 1) mod ?N)"
    by (simp add: zmod_int ac_simps)
  finally have idx: "go_rem (sint (roundRobin p + 1)) (int ?N) = int i"
    by (simp add: i_def a_def)
  have il: "i < ?N" using assms(4) by (simp add: i_def)
  have sel: "getClientRoundRobin p = (Ok (Some i), p\<lparr>roundRobin := roundRobin p + 1\<rparr>)"
    using assms(4) il by (simp add: getClientRoundRobin_def hs idx Let_def)
  have mem: "i \<in> set (getHealthyNodes p)" using il by (simp add: hs)
  have "fst (select_node raw p) = Ok (Some i)" using sel assms(2) by (simp add: select_node_RoundRobin)
  from GetClient_selected [OF assms(1) this mem, of now] sel assms(2)
  show ?thesis by (simp add: select_node_RoundRobin)
qed

lemma serial_round_robin:
  assumes "\<not> closed p" "LoadBalanceStrategy (config p) = RoundRobin"
    "\<forall>n\<in>set (nodes p). node_usable n" "0 < length (nodes p)"
    "0 \<le> sint (roundRobin p)" "sint (roundRobin p) + int (length ins) < 2 ^ 63"
  shows "map returned_node (fst (GetClient_serial ins p))
           = map (\<lambda>j. Some ((nat (sint (roundRobin p)) + 1 + j) mod length (nodes p))) [0..<length ins]"
  using assms
proof (induction ins arbitrary: p)
  case Nil
  then show ?case by simp
next
  case (Cons x rest)
  obtain now raw where x: "x = (now, raw)" by (cases x)
  let ?N = "length (nodes p)"
  let ?a = "nat (sint (roundRobin p))"
  let ?i = "(?a + 1) mod ?N"
  let ?p' = "p\<lparr>roundRobin := roundRobin p + 1, totalRequests := totalRequests p + 1,
                nodes := (nodes p)[?i := use_node now (nodes p ! ?i)]\<rparr>"
  have small: "sint (roundRobin p) + 1 < 2 ^ 63" using Cons.prems(6) by simp
  have step: "GetClient now raw p = (Ok (?i, Client (nodes p ! ?i)), ?p')"
    using GetClient_round_robin_step [OF Cons.prems(1-5) small] by simp
  have s: "sint (roundRobin p + 1) = sint (roundRobin p) + 1" using small by (rule sint_succ)
  have us: "\<forall>n\<in>set (nodes ?p'). node_usable n"
    using Cons.prems(3) set_update_subset_insert [of "nodes p" ?i "use_node now (nodes p ! ?i)"]
      Cons.prems(4)
    by (auto simp: node_usable_use_node)
  have ih: "map returned_node (fst (GetClient_serial rest ?p'))
           = map (\<lambda>j. Some ((nat (sint (roundRobin ?p')) + 1 + j) mod length (nodes ?p'))) [0..<length rest]"
    using Cons.prems us s by (intro Cons.IH) simp_all
  have a': "nat (sint (roundRobin p + 1)) = Suc ?a" using s Cons.prems(5) by simp
  have ih': "map returned_node (fst (GetClient_serial rest ?p'))
           = map (\<lambda>j. Some ((Suc ?a + 1 + j) mod ?N)) [0..<length rest]"
    using ih a' by simp
  have "map returned_node (fst (GetClient_serial ((now, raw) # rest) p))
          = Some ?i # map returned_node (fst (GetClient_serial rest ?p'))"
    by (simp add: step split_beta)
  also have "\<dots> = map (\<lambda>j. Some ((?a + 1 + j) mod ?N)) [0..<Suc (length rest)]"
    unfolding ih' map_upt_Suc by simp
  finally show ?case by (simp add: x)
qed

text \<open>
  C2. Under \<open>RoundRobin\<close> every successful \<open>GetClient\<close> returns the healthy node at
  index (the pool counter after its increment) mod (the size of the healthy set).
  Consequently, in a pool of \<open>N\<close> nodes that are all healthy and stay so, with nothing
  but serial \<open>GetClient\<close> calls, any \<open>K * N\<close> consecutive calls return every node exactly
  \<open>K\<close> times. The counter is an \<open>int64\<close> that starts at 0 and goes up by one per call;
  the window is taken while it is still below \<open>2^63\<close>.
\<close>

theorem round_robin_fair:
  "(\<not> closed p \<and> LoadBalanceStrategy (config p) = RoundRobin \<and> fst (GetClient now raw p) = Ok (i, c)
      \<longrightarrow> getHealthyNodes p \<noteq> []
          \<and> i = getHealthyNodes p ! nat (sint (roundRobin p + 1) mod int (length (getHealthyNodes p)))
          \<and> roundRobin (snd (GetClient now raw p)) = roundRobin p + 1)
   \<and> (\<not> closed p \<and> LoadBalanceStrategy (config p) = RoundRobin
      \<and> (\<forall>n\<in>set (nodes p). node_usable n) \<and> 0 < length (nodes p)
      \<and> 0 \<le> sint (roundRobin p) \<and> sint (roundRobin p) + int (K * length (nodes p)) < 2 ^ 63
      \<and> length ins = K * length (nodes p) \<and> m < length (nodes p)
      \<longrightarrow> count_list (map returned_node (fst (GetClient_serial ins p))) (Some m) = K)"
proof (rule conjI; rule impI)
  assume "\<not> closed p \<and> LoadBalanceStrategy (config p) = RoundRobin \<and> fst (GetClient now raw p) = Ok (i, c)"
  then show "getHealthyNodes p \<noteq> []
          \<and> i = getHealthyNodes p ! nat (sint (roundRobin p + 1) mod int (length (getHealthyNodes p)))
          \<and> roundRobin (snd (GetClient now raw p)) = roundRobin p + 1"
    using GetClient_round_robin_index [of p now raw i c] by simp
next
  assume a: "\<not> closed p \<and> LoadBalanceStrategy (config p) = RoundRobin
      \<and> (\<forall>n\<in>set (nodes p). node_usable n) \<and> 0 < length (nodes p)
      \<and> 0 \<le> sint (roundRobin p) \<and> sint (roundRobin p) + int (K * length (nodes p)) < 2 ^ 63
      \<and> length ins = K * length (nodes p) \<and> m < length (nodes p)"
  then have b: "\<not> closed p" "LoadBalanceStrategy (config p) = RoundRobin"
    "\<forall>n\<in>set (nodes p). node_usable n" "0 < length (nodes p)" "0 \<le> sint (roundRobin p)"
    "sint (roundRobin p) + int (length ins) < 2 ^ 63" "length ins = K * length (nodes p)"
    "m < length (nodes p)"
    by simp_all
  from serial_round_robin [OF b(1-6)] b(7)
  have "map returned_node (fst (GetClient_serial ins p))
           = map (\<lambda>j. Some ((nat (sint (roundRobin p)) + 1 + j) mod length (nodes p)))
               [0..<K * length (nodes p)]"
    by simp
  then show "count_list (map returned_node (fst (GetClient_serial ins p))) (Some m) = K"
    using count_shifted [OF b(4,8), of "nat (sint (roundRobin p)) + 1" K] by simp
qed

lemma all_up_pool_facts:
  "\<not> closed all_up_pool \<and> LoadBalanceStrategy (config all_up_pool) = RoundRobin
   \<and> length (nodes all_up_pool) = 3 \<and> roundRobin all_up_pool = 0
   \<and> (\<forall>n\<in>set (nodes all_up_pool). node_usable n)"
  by (simp add: all_up_pool_def example_defs node_usable_def IsConnected_def RoundRobin_def Let_def)

text \<open>Three healthy nodes, six calls: each node is returned twice.\<close>

theorem round_robin_fair_witness:
  "length (nodes all_up_pool) = 3
   \<and> count_list (map returned_node
        (fst (GetClient_serial [(1, 0), (2, 0), (3, 0), (4, 0), (5, 0), (6, 0)] all_up_pool))) (Some 0) = 2
   \<and> count_list (map returned_node
        (fst (GetClient_serial [(1, 0), (2, 0), (3, 0), (4, 0), (5, 0), (6, 0)] all_up_pool))) (Some 1) = 2
   \<and> count_list (map returned_node
        (fst (GetClient_serial [(1, 0), (2, 0), (3, 0), (4, 0), (5, 0), (6, 0)] all_up_pool))) (Some 2) = 2"
  using round_robin_fair [of all_up_pool 0 0 0 None 2 "[(1, 0), (2, 0), (3, 0), (4, 0), (5, 0), (6, 0)]" 0]
    round_robin_fair [of all_up_pool 0 0 0 None 2 "[(1, 0), (2, 0), (3, 0), (4, 0), (5, 0), (6, 0)]" 1]
    round_robin_fair [of all_up_pool 0 0 0 None 2 "[(1, 0), (2, 0), (3, 0), (4, 0), (5, 0), (6, 0)]" 2]
    all_up_pool_facts
  by simp

end
